theory Spec2Isabelle
  imports Main "HOL-Library.AList" "HOL-Library.Sublist"
begin

section \<open>Python strings and the library calls the parser uses\<close>

text \<open>
  A Python \<open>str\<close> is modelled as a \<open>string\<close>, one \<open>char\<close> per code point; the model
  therefore covers reports whose code points are below 256. In that range
  \<open>str.isspace\<close>, \<open>str.strip\<close> and the regular-expression class \<open>\s\<close> agree on the
  twelve characters of \<open>is_space\<close>, the class \<open>\d\<close> is the ten ASCII digits, and
  \<open>.\<close> is every character but the line feed.
\<close>

definition is_space :: "char \<Rightarrow> bool" where
  "is_space c = (c \<in> set [CHR 0x09, CHR 0x0A, CHR 0x0B, CHR 0x0C, CHR 0x0D,
                            CHR 0x1C, CHR 0x1D, CHR 0x1E, CHR 0x1F, CHR 0x20,
                            CHR 0x85, CHR 0xA0])"

definition is_digit :: "char \<Rightarrow> bool" where
  "is_digit c = (c \<in> set ''0123456789'')"

text \<open>\<open>s.strip()\<close>: drop the white space at both ends.\<close>

definition strip :: "string \<Rightarrow> string" where
  "strip s = rev (dropWhile is_space (rev (dropWhile is_space s)))"

text \<open>\<open>s.startswith(p)\<close>.\<close>

definition startswith :: "string \<Rightarrow> string \<Rightarrow> bool" where
  "startswith s p = (take (length p) s = p)"

text \<open>\<open>p in s\<close>: \<open>p\<close> occurs in \<open>s\<close> as a contiguous piece.\<close>

fun py_in :: "string \<Rightarrow> string \<Rightarrow> bool" where
  "py_in p [] = (p = [])"
| "py_in p (c # cs) = (startswith (c # cs) p \<or> py_in p cs)"

text \<open>
  \<open>xs[:k]\<close>: a negative bound counts from the end, and a bound beyond either end is
  clipped.
\<close>

definition slice_to :: "'a list \<Rightarrow> int \<Rightarrow> 'a list" where
  "slice_to xs k = (if 0 \<le> k then take (nat k) xs else take (length xs - nat (- k)) xs)"

text \<open>
  \<open>s.split(sep, 1)[1]\<close>: what follows the first occurrence of \<open>sep\<close>; without an
  occurrence the list has one element and the index raises \<open>IndexError\<close>
  (\<open>None\<close> here, turned into the error by the caller).
\<close>

fun split_after :: "string \<Rightarrow> string \<Rightarrow> string option" where
  "split_after sep [] = None"
| "split_after sep (c # cs) =
     (if startswith (c # cs) sep then Some (drop (length sep) (c # cs))
      else split_after sep cs)"

datatype py_error = IndexError | ValueError

text \<open>
  \<open>int(g)\<close> for \<open>g\<close> a non-empty run of ASCII digits (the only argument the parser
  passes). The interpreter named in the script's first line, CPython 3.11, refuses a
  decimal string of more than \<open>sys.int_info.default_max_str_digits = 4300\<close> digits with
  \<open>ValueError\<close>; leading zeros count.
\<close>

definition int_max_str_digits :: nat where
  "int_max_str_digits = 4300"

definition digit_val :: "char \<Rightarrow> int" where
  "digit_val c = int (of_char c) - 48"

definition digits_value :: "string \<Rightarrow> int" where
  "digits_value ds = foldl (\<lambda>a c. 10 * a + digit_val c) 0 ds"

definition py_int :: "string \<Rightarrow> py_error + int" where
  "py_int ds = (if length ds > int_max_str_digits then Inl ValueError
                else Inr (digits_value ds))"

section \<open>truncateString\<close>

definition MAX_LENGTH :: int where
  "MAX_LENGTH = 100"

definition truncateString :: "string \<Rightarrow> int \<Rightarrow> string" where
  "truncateString val max_length =
     (if int (length val) > max_length then slice_to val (max_length - 3) @ ''...''
      else val)"

section \<open>The two regular expressions\<close>

text \<open>
  \<open>re.search("\s*LABEL:\s+(\d+)", s)\<close>, returning group 1. A match that starts at
  some position consumes white space up to the label, so the leftmost match is the one
  at the leftmost occurrence of \<open>LABEL:\<close> that is followed by at least one white-space
  character and then a digit; both repetitions are greedy and their classes are
  disjoint, so group 1 is the whole run of digits.
\<close>

definition summary_at :: "string \<Rightarrow> string \<Rightarrow> string option" where
  "summary_at label t =
     (if startswith t (label @ '':'') then
        (let r = drop (length label + 1) t;
             ds = takeWhile is_digit (dropWhile is_space r)
         in if takeWhile is_space r \<noteq> [] \<and> ds \<noteq> [] then Some ds else None)
      else None)"

fun re_search_summary :: "string \<Rightarrow> string \<Rightarrow> string option" where
  "re_search_summary label [] = summary_at label []"
| "re_search_summary label (c # cs) =
     (case summary_at label (c # cs) of
        Some ds \<Rightarrow> Some ds
      | None \<Rightarrow> re_search_summary label cs)"

text \<open>
  \<open>re.match(r'^\s*[fd](\s+.*|\s*[+\-.]+):\s*\/', s)\<close>, as a truth value (the parser
  only tests it). \<open>colon_slash\<close> is the tail \<open>:\s*\/\<close>; \<open>dot_star_tail\<close> is
  \<open>.*\<close> followed by that tail; \<open>alt_any\<close> is the first alternative, \<open>\s+.*\<close>,
  followed by the tail; \<open>alt_flags\<close> is the second alternative, \<open>\s*[+\-.]+\<close>,
  followed by the tail.
\<close>

definition colon_slash :: "string \<Rightarrow> bool" where
  "colon_slash t =
     (case t of
        [] \<Rightarrow> False
      | c # u \<Rightarrow> c = CHR '':'' \<and>
          (case dropWhile is_space u of [] \<Rightarrow> False | b # _ \<Rightarrow> b = CHR ''/''))"

fun dot_star_tail :: "string \<Rightarrow> bool" where
  "dot_star_tail [] = colon_slash []"
| "dot_star_tail (c # cs) = (colon_slash (c # cs) \<or> (c \<noteq> CHR 0x0A \<and> dot_star_tail cs))"

fun alt_any :: "string \<Rightarrow> bool" where
  "alt_any [] = False"
| "alt_any (c # cs) = (is_space c \<and> (dot_star_tail cs \<or> alt_any cs))"

definition is_flag :: "char \<Rightarrow> bool" where
  "is_flag c = (c = CHR ''+'' \<or> c = CHR ''-'' \<or> c = CHR ''.'')"

definition alt_flags :: "string \<Rightarrow> bool" where
  "alt_flags r =
     (let r1 = dropWhile is_space r
      in takeWhile is_flag r1 \<noteq> [] \<and> colon_slash (dropWhile is_flag r1))"

definition entry_match :: "string \<Rightarrow> bool" where
  "entry_match s =
     (case dropWhile is_space s of
        [] \<Rightarrow> False
      | c # r \<Rightarrow> (c = CHR ''f'' \<or> c = CHR ''d'') \<and> (alt_any r \<or> alt_flags r))"

section \<open>aideJson\<close>

text \<open>
  The dictionary \<open>data\<close>: its eight keys of the literal, in the literal's order, and
  the summary keys the loop adds, kept as an association list in insertion order
  (\<open>AList.update\<close> overwrites a key in place and appends a new one, as assignment to a
  Python dictionary does). \<open>timestamp = None\<close> is Python's \<open>None\<close>.
\<close>

record parsed_record =
  timestamp :: "string option"
  error_severity :: string
  application_name :: string
  backend_type :: string
  added_entries :: "string list"
  removed_entries :: "string list"
  changed_entries :: "string list"
  message :: string
  summary :: "(string \<times> int) list"

datatype section_state = Initial | Added | Removed | Changed

text \<open>
  \<open>currentTimestamp()\<close> reads the system clock. In the model it is a parameter of
  type \<open>clock\<close>: \<open>currentTimestamp n\<close> is what the call returns when \<open>n\<close> calls
  have been made before, and \<open>ticks\<close> counts the calls made so far.
\<close>

type_synonym clock = "nat \<Rightarrow> string"

record loop_state =
  data :: parsed_record
  state :: section_state
  ticks :: nat

definition summary_patterns :: "(string \<times> string) list" where
  "summary_patterns =
     [(''Total number of entries'', ''total_entries''),
      (''Added entries'', ''added_summary''),
      (''Removed entries'', ''removed_summary''),
      (''Changed entries'', ''changed_summary'')]"

text \<open>The inner \<open>for label, key in summary_patterns.items()\<close>, left at the first match.\<close>

fun summary_loop ::
  "(string \<times> string) list \<Rightarrow> string \<Rightarrow> parsed_record \<Rightarrow> py_error + parsed_record" where
  "summary_loop [] s d = Inr d"
| "summary_loop ((label, key) # ps) s d =
     (case re_search_summary label s of
        Some g \<Rightarrow>
          (case py_int g of
             Inl e \<Rightarrow> Inl e
           | Inr n \<Rightarrow> Inr (d\<lparr>summary := AList.update key n (summary d)\<rparr>))
      | None \<Rightarrow> summary_loop ps s d)"

text \<open>One pass of the body of \<open>for line in lines\<close>.\<close>

definition process_line :: "clock \<Rightarrow> loop_state \<Rightarrow> string \<Rightarrow> py_error + loop_state" where
  "process_line currentTimestamp e line =
     (let stripped_line = strip line in
      if py_in ''Start timestamp:'' line then
        Inr (e\<lparr>data := (data e)\<lparr>timestamp := Some (currentTimestamp (ticks e))\<rparr>,
              ticks := Suc (ticks e)\<rparr>)
      else
        (case summary_loop summary_patterns stripped_line (data e) of
           Inl err \<Rightarrow> Inl err
         | Inr d \<Rightarrow>
             if py_in ''Added entries:'' stripped_line then Inr (e\<lparr>data := d, state := Added\<rparr>)
             else if py_in ''Removed entries:'' stripped_line then
               Inr (e\<lparr>data := d, state := Removed\<rparr>)
             else if py_in ''Changed entries:'' stripped_line then
               Inr (e\<lparr>data := d, state := Changed\<rparr>)
             else if entry_match stripped_line then
               (case split_after '': '' stripped_line of
                  None \<Rightarrow> Inl IndexError
                | Some path \<Rightarrow>
                    if state e = Added then
                      Inr (e\<lparr>data := d\<lparr>added_entries :=
                              added_entries d @ [truncateString path MAX_LENGTH]\<rparr>\<rparr>)
                    else if state e = Removed then
                      Inr (e\<lparr>data := d\<lparr>removed_entries :=
                              removed_entries d @ [truncateString path MAX_LENGTH]\<rparr>\<rparr>)
                    else if state e = Changed then
                      Inr (e\<lparr>data := d\<lparr>changed_entries :=
                              changed_entries d @ [truncateString path MAX_LENGTH]\<rparr>\<rparr>)
                    else Inr (e\<lparr>data := d\<rparr>))
             else Inr (e\<lparr>data := d\<rparr>)))"

text \<open>The loop over the lines; an exception raised by a line ends it.\<close>

fun run :: "clock \<Rightarrow> loop_state \<Rightarrow> string list \<Rightarrow> py_error + loop_state" where
  "run currentTimestamp e [] = Inr e"
| "run currentTimestamp e (l # ls) =
     (case process_line currentTimestamp e l of
        Inl err \<Rightarrow> Inl err
      | Inr e' \<Rightarrow> run currentTimestamp e' ls)"

definition initial_data :: parsed_record where
  "initial_data =
     \<lparr>timestamp = None, error_severity = ''LOG'', application_name = ''AIDE'',
      backend_type = ''log_analyzer'', added_entries = [], removed_entries = [],
      changed_entries = [], message = ''AIDE Log Analysis'', summary = []\<rparr>"

definition initial_state :: loop_state where
  "initial_state = \<lparr>data = initial_data, state = Initial, ticks = 0\<rparr>"

text \<open>
  What \<open>open\<close> and \<open>readlines\<close> give: the two exceptions the function catches, or the
  lines of the file (any other failure of the two calls leaves the function before a
  line is looked at, and is not a case of the model). The result of \<open>aideJson\<close> is
  \<open>Inr None\<close> for Python's \<open>None\<close>, \<open>Inr (Some d)\<close> for the dictionary, and
  \<open>Inl err\<close> when \<open>err\<close> is raised. The messages written with \<open>syslog\<close> change
  neither the result nor the control flow and are left out.
\<close>

datatype file_read = NotFound | Denied | Content "string list"

definition differences_banner :: string where
  "differences_banner = ''AIDE found differences between database and filesystem!!''"

definition version_banner :: string where
  "version_banner = ''AIDE, version''"

definition aideJson :: "clock \<Rightarrow> file_read \<Rightarrow> py_error + parsed_record option" where
  "aideJson currentTimestamp r =
     (case r of
        NotFound \<Rightarrow> Inr None
      | Denied \<Rightarrow> Inr None
      | Content lines \<Rightarrow>
          if lines = [] then Inr None
          else if \<not> startswith (hd lines) ''Start timestamp:'' then Inr None
          else if \<not> startswith (last lines) ''End timestamp:'' then Inr None
          else if length lines < 2 \<or>
                  (\<not> py_in differences_banner (lines ! 1) \<and> \<not> py_in version_banner (lines ! 1))
          then Inr None
          else
            (case run currentTimestamp initial_state lines of
               Inl err \<Rightarrow> Inl err
             | Inr e \<Rightarrow> Inr (Some (data e))))"

section \<open>json.dumps\<close>

text \<open>
  \<open>json.dumps(data, separators=(',', ':'))\<close> of \<open>mainWorkflow\<close>, for the values the
  dictionary holds: \<open>None\<close>, strings, integers and lists of strings. Strings are
  escaped as the default \<open>ensure_ascii=True\<close> does: the quote, the backslash and the
  five short escapes are written with a backslash, every other character outside
  \<open>' '..'~'\<close> as \<open>\u00XX\<close>.
\<close>

datatype json_value = JNone | JStr string | JInt int | JStrList "string list"

definition hex_digit :: "nat \<Rightarrow> char" where
  "hex_digit n = ''0123456789abcdef'' ! (n mod 16)"

definition json_escape_char :: "char \<Rightarrow> string" where
  "json_escape_char c =
     (if c = CHR 0x22 then [CHR 0x5C, CHR 0x22]
      else if c = CHR 0x5C then [CHR 0x5C, CHR 0x5C]
      else if c = CHR 0x0A then [CHR 0x5C, CHR ''n'']
      else if c = CHR 0x0D then [CHR 0x5C, CHR ''r'']
      else if c = CHR 0x09 then [CHR 0x5C, CHR ''t'']
      else if c = CHR 0x08 then [CHR 0x5C, CHR ''b'']
      else if c = CHR 0x0C then [CHR 0x5C, CHR ''f'']
      else if (32::nat) \<le> of_char c \<and> (of_char c :: nat) \<le> 126 then [c]
      else [CHR 0x5C, CHR ''u'', CHR ''0'', CHR ''0'',
            hex_digit (of_char c div 16), hex_digit (of_char c mod 16)])"

definition json_str :: "string \<Rightarrow> string" where
  "json_str s = [CHR 0x22] @ concat (map json_escape_char s) @ [CHR 0x22]"

function show_pos :: "int \<Rightarrow> string" where
  "show_pos n =
     (if n < 10 then [char_of (48 + n)]
      else show_pos (n div 10) @ [char_of (48 + n mod 10)])"
  by pat_completeness auto
termination
  by (relation "measure nat") auto

definition show_int :: "int \<Rightarrow> string" where
  "show_int i = (if i < 0 then ''-'' @ show_pos (- i) else show_pos i)"

fun join :: "string \<Rightarrow> string list \<Rightarrow> string" where
  "join sep [] = []"
| "join sep [x] = x"
| "join sep (x # y # ys) = x @ sep @ join sep (y # ys)"

fun json_value_text :: "json_value \<Rightarrow> string" where
  "json_value_text JNone = ''null''"
| "json_value_text (JStr s) = json_str s"
| "json_value_text (JInt i) = show_int i"
| "json_value_text (JStrList xs) = ''['' @ join '','' (map json_str xs) @ '']''"

definition json_member :: "string \<times> json_value \<Rightarrow> string" where
  "json_member kv = json_str (fst kv) @ '':'' @ json_value_text (snd kv)"

definition json_dumps :: "(string \<times> json_value) list \<Rightarrow> string" where
  "json_dumps kvs = ''{'' @ join '','' (map json_member kvs) @ ''}''"

text \<open>The items of the dictionary a \<open>parsed_record\<close> stands for, in the dictionary's order.\<close>

definition items :: "parsed_record \<Rightarrow> (string \<times> json_value) list" where
  "items d =
     [(''timestamp'', (case timestamp d of None \<Rightarrow> JNone | Some t \<Rightarrow> JStr t)),
      (''error_severity'', JStr (error_severity d)),
      (''application_name'', JStr (application_name d)),
      (''backend_type'', JStr (backend_type d)),
      (''added_entries'', JStrList (added_entries d)),
      (''removed_entries'', JStrList (removed_entries d)),
      (''changed_entries'', JStrList (changed_entries d)),
      (''message'', JStr (message d))]
     @ map (\<lambda>kv. (fst kv, JInt (snd kv))) (summary d)"

section \<open>Notions the properties are stated with\<close>

text \<open>A clock that always shows the same time, and the line feed, for concrete reports.\<close>

definition fixed_clock :: clock where
  "fixed_clock n = ''2024-01-01 00:00:00.000''"

definition nl :: string where
  "nl = [CHR 0x0A]"

text \<open>
  The section state after a line, as the \<open>if/elif\<close> chain of the loop body sets it: a
  line containing \<open>Start timestamp:\<close> is left before the chain is reached.
\<close>

definition has_header :: "string \<Rightarrow> bool" where
  "has_header s =
     (py_in ''Added entries:'' s \<or> py_in ''Removed entries:'' s \<or> py_in ''Changed entries:'' s)"

definition header_state :: "string \<Rightarrow> section_state \<Rightarrow> section_state" where
  "header_state s st =
     (if py_in ''Added entries:'' s then Added
      else if py_in ''Removed entries:'' s then Removed
      else if py_in ''Changed entries:'' s then Changed
      else st)"

definition next_state :: "string \<Rightarrow> section_state \<Rightarrow> section_state" where
  "next_state line st =
     (if py_in ''Start timestamp:'' line then st else header_state (strip line) st)"

text \<open>A line recognised as a section header: the loop assigns the state on it.\<close>

definition header_line :: "string \<Rightarrow> bool" where
  "header_line line = (\<not> py_in ''Start timestamp:'' line \<and> has_header (strip line))"

text \<open>
  An entry line: a line on which the loop reaches the test of the entry pattern and the
  pattern matches; \<open>entry_path\<close> is the path taken from it.
\<close>

definition entry_line :: "string \<Rightarrow> bool" where
  "entry_line line =
     (\<not> py_in ''Start timestamp:'' line \<and> \<not> has_header (strip line) \<and>
      entry_match (strip line))"

definition entry_path :: "string \<Rightarrow> string option" where
  "entry_path line = split_after '': '' (strip line)"

definition shown_path :: "string \<Rightarrow> string" where
  "shown_path line =
     (case entry_path line of None \<Rightarrow> [] | Some p \<Rightarrow> truncateString p MAX_LENGTH)"

text \<open>The section state in force when each line of a list is read.\<close>

fun states_before :: "section_state \<Rightarrow> string list \<Rightarrow> section_state list" where
  "states_before st [] = []"
| "states_before st (l # ls) = st # states_before (next_state l st) ls"

definition entries_of :: "section_state \<Rightarrow> section_state \<Rightarrow> string list \<Rightarrow> string list" where
  "entries_of sec st ls =
     map snd (filter (\<lambda>p. fst p = sec \<and> entry_line (snd p)) (zip (states_before st ls) ls))"

text \<open>
  A line matches the summary pattern of a label when \<open>re.search\<close> finds the pattern in
  its stripped text. The loop records a label on a line only when the line does not
  contain \<open>Start timestamp:\<close> and no label earlier in \<open>summary_patterns\<close> matches:
  \<open>recorded line\<close> is the key and the digits the loop records on the line.
\<close>

definition matches_label :: "string \<Rightarrow> string \<Rightarrow> bool" where
  "matches_label label line = (re_search_summary label (strip line) \<noteq> None)"

fun first_match :: "(string \<times> string) list \<Rightarrow> string \<Rightarrow> (string \<times> string) option" where
  "first_match [] s = None"
| "first_match ((label, key) # ps) s =
     (case re_search_summary label s of
        Some g \<Rightarrow> Some (key, g)
      | None \<Rightarrow> first_match ps s)"

definition recorded :: "string \<Rightarrow> (string \<times> string) option" where
  "recorded line =
     (if py_in ''Start timestamp:'' line then None
      else first_match summary_patterns (strip line))"

text \<open>The four structural checks made before the loop.\<close>

definition structurally_valid :: "string list \<Rightarrow> bool" where
  "structurally_valid lines =
     (lines \<noteq> [] \<and> startswith (hd lines) ''Start timestamp:'' \<and>
      startswith (last lines) ''End timestamp:'' \<and> 2 \<le> length lines \<and>
      (py_in differences_banner (lines ! 1) \<or> py_in version_banner (lines ! 1)))"

text \<open>The output sequence a section state selects; \<open>Initial\<close> selects none.\<close>

fun list_of :: "section_state \<Rightarrow> parsed_record \<Rightarrow> string list" where
  "list_of Added d = added_entries d"
| "list_of Removed d = removed_entries d"
| "list_of Changed d = changed_entries d"
| "list_of Initial d = []"

text \<open>The section state after a list of lines, and the section a header line names.\<close>

definition scan :: "section_state \<Rightarrow> string list \<Rightarrow> section_state" where
  "scan st ls = foldl (\<lambda>s l. next_state l s) st ls"

definition section_of :: "string \<Rightarrow> section_state" where
  "section_of line = header_state (strip line) Initial"

text \<open>
  The exception a line raises, if any: \<open>ValueError\<close> from \<open>int\<close> on a recorded run of
  more than 4300 digits, \<open>IndexError\<close> from \<open>split(": ", 1)[1]\<close> on an entry line
  without \<open>": "\<close>.
\<close>

definition line_error :: "string \<Rightarrow> py_error option" where
  "line_error line =
     (case recorded line of
        Some kg \<Rightarrow>
          if length (snd kg) > int_max_str_digits then Some ValueError
          else if entry_line line \<and> entry_path line = None then Some IndexError
          else None
      | None \<Rightarrow> if entry_line line \<and> entry_path line = None then Some IndexError else None)"

text \<open>A report with the two markers and the banner around the given lines.\<close>

definition start_line :: string where
  "start_line = ''Start timestamp: 2024-01-01 00:00:00'' @ nl"

definition banner_line :: string where
  "banner_line = ''AIDE found differences between database and filesystem!!'' @ nl"

definition end_line :: string where
  "end_line = ''End timestamp: 2024-01-01 00:00:01'' @ nl"

definition report :: "string list \<Rightarrow> string list" where
  "report body = start_line # banner_line # body @ [end_line]"

text \<open>Lines and records for concrete reports; \<open>record_with\<close> fills in the constant fields.\<close>

definition added_header :: string where
  "added_header = ''Added entries:'' @ nl"

definition passwd_entry :: string where
  "passwd_entry = ''f++++++++++++++: /etc/passwd'' @ nl"

definition total_line :: string where
  "total_line = ''Total number of entries: 42'' @ nl"

definition record_with ::
  "string list \<Rightarrow> string list \<Rightarrow> string list \<Rightarrow> (string \<times> int) list \<Rightarrow> parsed_record" where
  "record_with a r c s =
     \<lparr>timestamp = Some (fixed_clock 0), error_severity = ''LOG'', application_name = ''AIDE'',
      backend_type = ''log_analyzer'', added_entries = a, removed_entries = r,
      changed_entries = c, message = ''AIDE Log Analysis'', summary = s\<rparr>"

declare show_pos.simps [simp del]

section \<open>Properties of truncateString\<close>

lemma truncateString_short: "int (length v) \<le> m \<Longrightarrow> truncateString v m = v"
  by (simp add: truncateString_def)

lemma truncateString_long:
  "3 \<le> m \<Longrightarrow> m < int (length v) \<Longrightarrow> truncateString v m = take (nat (m - 3)) v @ ''...''"
  by (simp add: truncateString_def slice_to_def)

lemma length_truncateString_long:
  assumes "3 \<le> m" "m < int (length v)"
  shows "int (length (truncateString v m)) = m"
proof -
  have "nat (m - 3) \<le> length v" using assms by linarith
  then have "length (take (nat (m - 3)) v) = nat (m - 3)" by simp
  then show ?thesis using assms by (simp add: truncateString_long)
qed

lemma truncateString_idem:
  assumes "3 \<le> m"
  shows "truncateString (truncateString v m) m = truncateString v m"
proof (cases "m < int (length v)")
  case True
  with assms have "int (length (truncateString v m)) = m"
    by (simp add: length_truncateString_long)
  then show ?thesis by (simp add: truncateString_short)
next
  case False
  then show ?thesis by (simp add: truncateString_short)
qed

text \<open>
  Where \<open>truncateString\<close> does what its docstring says. A string of at most
  \<open>max_length\<close> characters is returned unchanged, for every \<open>max_length\<close>. When
  \<open>max_length\<close> is at least 3 (the default \<open>MAX_LENGTH = 100\<close> is), a longer string
  becomes its first \<open>max_length - 3\<close> characters followed by \<open>...\<close>, the result has
  exactly \<open>max_length\<close> characters, and truncating twice is truncating once.
\<close>

theorem truncateString_spec:
  "(int (length v) \<le> max_length \<longrightarrow> truncateString v max_length = v) \<and>
   (3 \<le> max_length \<longrightarrow>
      (max_length < int (length v) \<longrightarrow>
         truncateString v max_length = take (nat (max_length - 3)) v @ ''...'' \<and>
         int (length (truncateString v max_length)) = max_length) \<and>
      truncateString (truncateString v max_length) max_length = truncateString v max_length) \<and>
   3 \<le> MAX_LENGTH"
  by (simp add: truncateString_short truncateString_long length_truncateString_long
      truncateString_idem MAX_LENGTH_def)

theorem truncateString_spec_witness:
  "truncateString ''/etc'' 5 = ''/etc'' \<and>
   truncateString ''/etc/passwd'' 5 = ''/e...'' \<and>
   int (length (truncateString ''/etc/passwd'' 5)) = 5 \<and>
   truncateString (truncateString ''/etc/passwd'' 5) 5 = truncateString ''/etc/passwd'' 5"
  using truncateString_spec [of "''/etc''" 5] truncateString_spec [of "''/etc/passwd''" 5]
  by (simp add: truncateString_def slice_to_def)

text \<open>
  C4: \<open>truncateString\<close> returns a string of at most \<open>max_length\<close> characters
  unchanged, cuts a longer one to its first \<open>max_length - 3\<close> characters followed by
  \<open>...\<close>, so that the result has exactly \<open>max_length\<close> characters, and is
  idempotent. The docstring says the same of \<open>max_length\<close>: the maximum allowed length
  for the string. Below 3 the code breaks both: the slice bound \<open>max_length - 3\<close> is
  negative and counts from the end, so with \<open>max_length = 2\<close> the string \<open>abcd\<close>
  loses its last character only and becomes the six characters \<open>abc...\<close>, longer than
  \<open>max_length\<close> and longer than the input, and truncating that again gives yet another
  string.
\<close>

theorem truncateString_exceeds_max_length:
  "truncateString ''abcd'' 2 = ''abc...'' \<and>
   2 < int (length (truncateString ''abcd'' 2)) \<and>
   int (length (truncateString ''abcd'' 2)) \<noteq> 2 \<and>
   truncateString (truncateString ''abcd'' 2) 2 \<noteq> truncateString ''abcd'' 2"
  by (simp add: truncateString_def slice_to_def)

section \<open>One line of the loop, and the loop\<close>

lemma summary_loop_first_match:
  "summary_loop ps s d =
     (case first_match ps s of
        None \<Rightarrow> Inr d
      | Some kg \<Rightarrow>
          (case py_int (snd kg) of
             Inl err \<Rightarrow> Inl err
           | Inr n \<Rightarrow> Inr (d\<lparr>summary := AList.update (fst kg) n (summary d)\<rparr>)))"
  by (induction ps s d rule: summary_loop.induct) (auto split: option.splits sum.splits)

lemma summary_loop_Inr:
  assumes "summary_loop ps s d = Inr d'"
  shows "d' = d\<lparr>summary := (case first_match ps s of None \<Rightarrow> summary d
                 | Some kg \<Rightarrow> AList.update (fst kg) (digits_value (snd kg)) (summary d))\<rparr>"
    and "first_match ps s = Some kg \<Longrightarrow> length (snd kg) \<le> int_max_str_digits"
  using assms unfolding summary_loop_first_match
  by (auto simp: py_int_def split: option.splits sum.splits if_splits)

lemma process_line_Inr:
  assumes "process_line clk e line = Inr e'"
  shows "state e' = next_state line (state e)"
    and "added_entries (data e') = added_entries (data e) @
           (if entry_line line \<and> state e = Added then [shown_path line] else [])"
    and "removed_entries (data e') = removed_entries (data e) @
           (if entry_line line \<and> state e = Removed then [shown_path line] else [])"
    and "changed_entries (data e') = changed_entries (data e) @
           (if entry_line line \<and> state e = Changed then [shown_path line] else [])"
    and "summary (data e') =
           (case recorded line of None \<Rightarrow> summary (data e)
            | Some kg \<Rightarrow> AList.update (fst kg) (digits_value (snd kg)) (summary (data e)))"
    and "entry_line line \<Longrightarrow> entry_path line \<noteq> None"
  using assms
  unfolding process_line_def Let_def next_state_def header_state_def entry_line_def
    has_header_def shown_path_def entry_path_def recorded_def
  by (auto split: if_splits sum.splits option.splits dest!: summary_loop_Inr(1))

lemma run_Cons_Inr:
  "run clk e (l # ls) = Inr e' \<longleftrightarrow> (\<exists>e1. process_line clk e l = Inr e1 \<and> run clk e1 ls = Inr e')"
  by (auto split: sum.splits)

lemma run_append:
  "run clk e (xs @ ys) =
     (case run clk e xs of Inl err \<Rightarrow> Inl err | Inr e1 \<Rightarrow> run clk e1 ys)"
  by (induction xs arbitrary: e) (auto split: sum.splits)

lemma run_append_Inr:
  "run clk e (xs @ ys) = Inr e' \<longleftrightarrow> (\<exists>e1. run clk e xs = Inr e1 \<and> run clk e1 ys = Inr e')"
  by (auto simp: run_append split: sum.splits)

lemma run_state: "run clk e ls = Inr e' \<Longrightarrow> state e' = scan (state e) ls"
proof (induction ls arbitrary: e)
  case Nil
  then show ?case by (simp add: scan_def)
next
  case (Cons l ls)
  from Cons.prems obtain e1 where 1: "process_line clk e l = Inr e1" and 2: "run clk e1 ls = Inr e'"
    by (auto split: sum.splits)
  from Cons.IH[OF 2] process_line_Inr(1)[OF 1] show ?case by (simp add: scan_def)
qed

lemma entries_of_Nil [simp]: "entries_of sec st [] = []"
  by (simp add: entries_of_def)

lemma entries_of_Cons:
  "entries_of sec st (l # ls) =
     (if st = sec \<and> entry_line l then [l] else []) @ entries_of sec (next_state l st) ls"
  by (simp add: entries_of_def)

lemma process_line_list_of:
  assumes "process_line clk e line = Inr e'" "sec \<noteq> Initial"
  shows "list_of sec (data e') = list_of sec (data e) @
           (if state e = sec \<and> entry_line line then [shown_path line] else [])"
  using process_line_Inr(2,3,4)[OF assms(1)] assms(2) by (cases sec) simp_all

lemma run_entries:
  "run clk e ls = Inr e' \<Longrightarrow> sec \<noteq> Initial \<Longrightarrow>
     list_of sec (data e') = list_of sec (data e) @ map shown_path (entries_of sec (state e) ls)"
proof (induction ls arbitrary: e)
  case Nil
  then show ?case by simp
next
  case (Cons l ls)
  from Cons.prems(1) obtain e1 where 1: "process_line clk e l = Inr e1" and 2: "run clk e1 ls = Inr e'"
    by (auto split: sum.splits)
  have "list_of sec (data e') = list_of sec (data e1) @ map shown_path (entries_of sec (state e1) ls)"
    by (rule Cons.IH[OF 2 Cons.prems(2)])
  also have "state e1 = next_state l (state e)"
    by (rule process_line_Inr(1)[OF 1])
  also have "list_of sec (data e1) = list_of sec (data e) @
           (if state e = sec \<and> entry_line l then [shown_path l] else [])"
    by (rule process_line_list_of[OF 1 Cons.prems(2)])
  finally show ?case by (simp add: entries_of_Cons)
qed

lemma run_summary_keys:
  "run clk e ls = Inr e' \<Longrightarrow>
     fst ` set (summary (data e')) =
       fst ` set (summary (data e)) \<union> {k. \<exists>l\<in>set ls. \<exists>g. recorded l = Some (k, g)}"
proof (induction ls arbitrary: e)
  case Nil
  then show ?case by simp
next
  case (Cons l ls)
  from Cons.prems obtain e1 where 1: "process_line clk e l = Inr e1" and 2: "run clk e1 ls = Inr e'"
    by (auto split: sum.splits)
  have a: "fst ` set (summary (data e1)) =
          fst ` set (summary (data e)) \<union> {k. \<exists>g. recorded l = Some (k, g)}"
  proof (cases "recorded l")
    case None
    then show ?thesis using process_line_Inr(5)[OF 1] by simp
  next
    case (Some kg)
    then have "{k. \<exists>g. recorded l = Some (k, g)} = {fst kg}" by (cases kg) auto
    then show ?thesis using process_line_Inr(5)[OF 1] Some by (simp add: dom_update)
  qed
  have b: "{k. \<exists>x\<in>set (l # ls). \<exists>g. recorded x = Some (k, g)} =
        {k. \<exists>g. recorded l = Some (k, g)} \<union> {k. \<exists>x\<in>set ls. \<exists>g. recorded x = Some (k, g)}"
    by auto
  show ?case unfolding b Cons.IH[OF 2] a by (simp add: Un_assoc)
qed

lemma process_line_records:
  "process_line clk e l = Inr e' \<Longrightarrow> recorded l = Some (key, g) \<Longrightarrow>
     map_of (summary (data e')) key = Some (digits_value g)"
  using process_line_Inr(5)[of clk e l e'] by (simp add: update_conv')

lemma process_line_keeps:
  "process_line clk e l = Inr e' \<Longrightarrow> \<forall>g. recorded l \<noteq> Some (key, g) \<Longrightarrow>
     map_of (summary (data e')) key = map_of (summary (data e)) key"
proof (cases "recorded l")
  case None
  assume "process_line clk e l = Inr e'"
  from process_line_Inr(5)[OF this] None show ?thesis by simp
next
  case (Some kg)
  assume 1: "process_line clk e l = Inr e'" and 2: "\<forall>g. recorded l \<noteq> Some (key, g)"
  from 2 Some have "fst kg \<noteq> key" by (cases kg) auto
  with process_line_Inr(5)[OF 1] Some show ?thesis by (simp add: update_conv')
qed

lemma run_summary_kept:
  "run clk e ls = Inr e' \<Longrightarrow> \<forall>l\<in>set ls. \<forall>g. recorded l \<noteq> Some (key, g) \<Longrightarrow>
     map_of (summary (data e')) key = map_of (summary (data e)) key"
proof (induction ls arbitrary: e)
  case Nil
  then show ?case by simp
next
  case (Cons l ls)
  from Cons.prems(1) obtain e1 where 1: "process_line clk e l = Inr e1" and 2: "run clk e1 ls = Inr e'"
    by (auto split: sum.splits)
  from Cons.prems(2) have 3: "\<forall>g. recorded l \<noteq> Some (key, g)"
    and 4: "\<forall>l\<in>set ls. \<forall>g. recorded l \<noteq> Some (key, g)" by simp_all
  from Cons.IH[OF 2 4] process_line_keeps[OF 1 3] show ?case by simp
qed

lemma run_split3:
  assumes "run clk e (pre @ [l] @ post) = Inr e'"
  obtains e1 e2 where "run clk e pre = Inr e1" "process_line clk e1 l = Inr e2"
    "run clk e2 post = Inr e'"
proof -
  from assms obtain e1 where 1: "run clk e pre = Inr e1" and "run clk e1 ([l] @ post) = Inr e'"
    unfolding run_append_Inr by blast
  then have "run clk e1 (l # post) = Inr e'" by simp
  then obtain e2 where "process_line clk e1 l = Inr e2" "run clk e2 post = Inr e'"
    unfolding run_Cons_Inr by blast
  with 1 show ?thesis using that by blast
qed

lemma run_last_recorded:
  assumes "run clk e (pre @ [l] @ post) = Inr e'" "recorded l = Some (key, g)"
    "\<forall>x\<in>set post. \<forall>g'. recorded x \<noteq> Some (key, g')"
  shows "map_of (summary (data e')) key = Some (digits_value g)"
proof -
  from assms(1) obtain e1 e2 where "run clk e pre = Inr e1" and 2: "process_line clk e1 l = Inr e2"
    and 3: "run clk e2 post = Inr e'"
    by (rule run_split3)
  from run_summary_kept[OF 3 assms(3)] process_line_records[OF 2 assms(2)] show ?thesis by simp
qed

section \<open>Containment, the structural checks, exceptions, the section state\<close>

lemma startswith_iff: "startswith s p \<longleftrightarrow> (\<exists>b. s = p @ b)"
proof
  assume "startswith s p"
  then have "s = p @ drop (length p) s"
    unfolding startswith_def by (metis append_take_drop_id)
  then show "\<exists>b. s = p @ b" ..
next
  assume "\<exists>b. s = p @ b"
  then show "startswith s p" by (auto simp: startswith_def)
qed

lemma py_in_iff: "py_in p s \<longleftrightarrow> (\<exists>a b. s = a @ p @ b)"
proof (induction s)
  case Nil
  then show ?case by simp
next
  case (Cons c cs)
  show ?case
  proof
    assume "py_in p (c # cs)"
    then consider "startswith (c # cs) p" | "py_in p cs" by auto
    then show "\<exists>a b. c # cs = a @ p @ b"
    proof cases
      case 1
      then obtain b where "c # cs = p @ b" unfolding startswith_iff ..
      then have "c # cs = [] @ p @ b" by simp
      then show ?thesis by blast
    next
      case 2
      with Cons.IH obtain a b where "cs = a @ p @ b" by blast
      then have "c # cs = (c # a) @ p @ b" by simp
      then show ?thesis by blast
    qed
  next
    assume "\<exists>a b. c # cs = a @ p @ b"
    then obtain a b where ab: "c # cs = a @ p @ b" by blast
    show "py_in p (c # cs)"
    proof (cases a)
      case Nil
      with ab have "startswith (c # cs) p" unfolding startswith_iff by auto
      then show ?thesis by simp
    next
      case (Cons x a')
      with ab have "cs = a' @ p @ b" by simp
      with Cons.IH have "py_in p cs" by blast
      then show ?thesis by simp
    qed
  qed
qed

lemma py_in_rev: "py_in (rev p) (rev s) = py_in p s"
proof -
  have "(\<exists>a b. rev s = a @ rev p @ b) \<longleftrightarrow> (\<exists>a b. s = a @ p @ b)"
  proof
    assume "\<exists>a b. rev s = a @ rev p @ b"
    then obtain a b where "rev s = a @ rev p @ b" by blast
    then have "rev (rev s) = rev (a @ rev p @ b)" by simp
    then have "s = rev b @ p @ rev a" by simp
    then show "\<exists>a b. s = a @ p @ b" by blast
  next
    assume "\<exists>a b. s = a @ p @ b"
    then obtain a b where "s = a @ p @ b" by blast
    then have "rev s = rev b @ rev p @ rev a" by simp
    then show "\<exists>a b. rev s = a @ rev p @ b" by blast
  qed
  then show ?thesis by (simp add: py_in_iff)
qed

lemma py_in_dropWhile:
  assumes "p \<noteq> []" "\<not> is_space (hd p)"
  shows "py_in p (dropWhile is_space s) = py_in p s"
proof (induction s)
  case Nil
  then show ?case by simp
next
  case (Cons c cs)
  show ?case
  proof (cases "is_space c")
    case True
    from assms obtain x p' where p: "p = x # p'" "\<not> is_space x" by (cases p) auto
    with True have "\<not> startswith (c # cs) p" by (auto simp: startswith_def)
    with True Cons.IH show ?thesis by simp
  next
    case False
    then show ?thesis by simp
  qed
qed

lemma py_in_strip:
  assumes "p \<noteq> []" "\<not> is_space (hd p)" "\<not> is_space (last p)"
  shows "py_in p (strip s) = py_in p s"
proof -
  have r: "rev p \<noteq> []" "\<not> is_space (hd (rev p))" using assms by (simp_all add: hd_rev)
  have "py_in p (strip s) = py_in (rev p) (dropWhile is_space (rev (dropWhile is_space s)))"
    unfolding strip_def using py_in_rev[of "rev p" "dropWhile is_space (rev (dropWhile is_space s))"]
    by simp
  also have "\<dots> = py_in (rev p) (rev (dropWhile is_space s))"
    by (rule py_in_dropWhile[OF r])
  also have "\<dots> = py_in p (dropWhile is_space s)" by (rule py_in_rev)
  also have "\<dots> = py_in p s" by (rule py_in_dropWhile[OF assms(1,2)])
  finally show ?thesis .
qed

lemma start_timestamp_strip:
  "py_in ''Start timestamp:'' (strip s) = py_in ''Start timestamp:'' s"
  by (rule py_in_strip) (simp_all add: is_space_def)

lemma aideJson_None_iff:
  "aideJson clk (Content lines) = Inr None \<longleftrightarrow> \<not> structurally_valid lines"
  by (auto simp: aideJson_def structurally_valid_def split: sum.splits)

lemma aideJson_Some_iff:
  "aideJson clk (Content lines) = Inr (Some d) \<longleftrightarrow>
     structurally_valid lines \<and> (\<exists>e. run clk initial_state lines = Inr e \<and> d = data e)"
  by (auto simp: aideJson_def structurally_valid_def split: sum.splits)

lemma aideJson_Inl_iff:
  "aideJson clk (Content lines) = Inl x \<longleftrightarrow>
     structurally_valid lines \<and> run clk initial_state lines = Inl x"
  by (auto simp: aideJson_def structurally_valid_def split: sum.splits)

lemma summary_loop_Inl_iff:
  "summary_loop ps s d = Inl x \<longleftrightarrow>
     (\<exists>kg. first_match ps s = Some kg \<and> length (snd kg) > int_max_str_digits \<and> x = ValueError)"
  unfolding summary_loop_first_match
  by (auto simp: py_int_def split: option.splits sum.splits if_splits)

lemma process_line_Inl_iff: "process_line clk e line = Inl x \<longleftrightarrow> line_error line = Some x"
  unfolding process_line_def Let_def line_error_def recorded_def entry_line_def entry_path_def
    has_header_def
  by (auto simp: summary_loop_Inl_iff split: sum.splits option.splits if_splits
      dest: summary_loop_Inr(2))


lemma process_line_total:
  "line_error line = None \<Longrightarrow> \<exists>e'. process_line clk e line = Inr e'"
  using process_line_Inl_iff[of clk e line] by (cases "process_line clk e line") auto

lemma run_Inr_iff: "(\<exists>e'. run clk e ls = Inr e') \<longleftrightarrow> (\<forall>l\<in>set ls. line_error l = None)"
proof (induction ls arbitrary: e)
  case Nil
  then show ?case by simp
next
  case (Cons l ls)
  show ?case
  proof (cases "process_line clk e l")
    case (Inl x)
    then have "line_error l = Some x" by (simp add: process_line_Inl_iff)
    with Inl show ?thesis by simp
  next
    case (Inr e1)
    have "line_error l = None"
    proof (cases "line_error l")
      case (Some x)
      then have "process_line clk e l = Inl x" by (simp add: process_line_Inl_iff)
      with Inr show ?thesis by simp
    qed simp
    with Inr Cons.IH[of e1] show ?thesis by simp
  qed
qed

lemma next_state_header:
  "next_state l st = (if header_line l then section_of l else st)"
  by (simp add: next_state_def header_line_def section_of_def header_state_def has_header_def)

lemma section_of_not_Initial: "header_line l \<Longrightarrow> section_of l \<noteq> Initial"
  by (auto simp: header_line_def section_of_def header_state_def has_header_def)

lemma scan_Nil [simp]: "scan st [] = st"
  by (simp add: scan_def)

lemma scan_Cons [simp]: "scan st (l # ls) = scan (next_state l st) ls"
  by (simp add: scan_def)

lemma scan_append: "scan st (xs @ ys) = scan (scan st xs) ys"
  by (simp add: scan_def)

lemma scan_no_header: "\<forall>x\<in>set ls. \<not> header_line x \<Longrightarrow> scan st ls = st"
  by (induction ls arbitrary: st) (simp_all add: next_state_header)

lemma scan_last_header:
  assumes "header_line h" "\<forall>x\<in>set b. \<not> header_line x"
  shows "scan st (a @ [h] @ b) = section_of h"
proof -
  have "scan st (a @ [h] @ b) = scan (next_state h (scan st a)) b"
    by (simp add: scan_append)
  also have "\<dots> = next_state h (scan st a)" using assms(2) by (rule scan_no_header)
  also have "\<dots> = section_of h" using assms(1) by (simp add: next_state_header)
  finally show ?thesis .
qed

lemma scan_not_Initial: "st \<noteq> Initial \<Longrightarrow> scan st ls \<noteq> Initial"
  by (induction ls arbitrary: st) (simp_all add: next_state_header section_of_not_Initial)

lemma scan_Initial_iff: "scan Initial ls = Initial \<longleftrightarrow> (\<forall>x\<in>set ls. \<not> header_line x)"
proof
  assume a: "scan Initial ls = Initial"
  show "\<forall>x\<in>set ls. \<not> header_line x"
  proof (rule ccontr)
    assume "\<not> (\<forall>x\<in>set ls. \<not> header_line x)"
    then have "\<exists>x\<in>set ls. header_line x" by blast
    then obtain a0 h b where "ls = a0 @ h # b" "header_line h" "\<forall>x\<in>set b. \<not> header_line x"
      by (rule split_list_last_propE)
    then have "scan Initial ls = section_of h" using scan_last_header[of h b Initial a0] by simp
    with a section_of_not_Initial[OF \<open>header_line h\<close>] show False by simp
  qed
next
  assume "\<forall>x\<in>set ls. \<not> header_line x"
  then show "scan Initial ls = Initial" by (rule scan_no_header)
qed

section \<open>What a line records, and the entries of a report\<close>

lemma recorded_iff:
  "recorded l = Some (k, g) \<longleftrightarrow>
     \<not> py_in ''Start timestamp:'' l \<and>
     (k = ''total_entries'' \<and> re_search_summary ''Total number of entries'' (strip l) = Some g \<or>
      k = ''added_summary'' \<and> \<not> matches_label ''Total number of entries'' l \<and>
        re_search_summary ''Added entries'' (strip l) = Some g \<or>
      k = ''removed_summary'' \<and> \<not> matches_label ''Total number of entries'' l \<and>
        \<not> matches_label ''Added entries'' l \<and>
        re_search_summary ''Removed entries'' (strip l) = Some g \<or>
      k = ''changed_summary'' \<and> \<not> matches_label ''Total number of entries'' l \<and>
        \<not> matches_label ''Added entries'' l \<and> \<not> matches_label ''Removed entries'' l \<and>
        re_search_summary ''Changed entries'' (strip l) = Some g)"
  by (auto simp: recorded_def summary_patterns_def matches_label_def split: option.splits)

lemma subseq_entries_of: "subseq (entries_of sec st ls) ls"
  by (induction ls arbitrary: st) (auto simp: entries_of_Cons)

lemma recorded_None_iff:
  "recorded l \<noteq> None \<longleftrightarrow>
     \<not> py_in ''Start timestamp:'' l \<and> (\<exists>p\<in>set summary_patterns. matches_label (fst p) l)"
  by (auto simp: recorded_def summary_patterns_def matches_label_def split: option.splits)

lemma entry_line_not_header: "entry_line l \<Longrightarrow> \<not> header_line l"
  by (simp add: entry_line_def header_line_def)

lemma list_of_initial_data [simp]: "list_of sec initial_data = []"
  by (cases sec) (simp_all add: initial_data_def)

lemma state_initial_state [simp]: "state initial_state = Initial"
  by (simp add: initial_state_def)

lemma data_initial_state [simp]: "data initial_state = initial_data"
  by (simp add: initial_state_def)

lemma shown_path_Some: "entry_path l = Some p \<Longrightarrow> shown_path l = truncateString p MAX_LENGTH"
  by (simp add: shown_path_def)

lemma aideJson_entry_line:
  assumes "aideJson clk (Content (pre @ [l] @ post)) = Inr (Some d)" "entry_line l"
  obtains e1 p where "run clk initial_state pre = Inr e1" "state e1 = scan Initial pre"
    "entry_path l = Some p"
    "\<And>sec. sec \<noteq> Initial \<Longrightarrow>
       list_of sec d = list_of sec (data e1) @
         (if state e1 = sec then [truncateString p MAX_LENGTH] else []) @
         map shown_path (entries_of sec (state e1) post)"
proof -
  from assms(1) obtain e where e: "run clk initial_state (pre @ [l] @ post) = Inr e" "d = data e"
    unfolding aideJson_Some_iff by blast
  from e(1) obtain e1 e2 where 1: "run clk initial_state pre = Inr e1"
    and 2: "process_line clk e1 l = Inr e2" and 3: "run clk e2 post = Inr e"
    by (rule run_split3)
  from process_line_Inr(6)[OF 2 assms(2)] obtain p where p: "entry_path l = Some p" by blast
  have s1: "state e1 = scan Initial pre" using run_state[OF 1] by simp
  have s2: "state e2 = state e1"
    using process_line_Inr(1)[OF 2] entry_line_not_header[OF assms(2)]
    by (simp add: next_state_header)
  have "list_of sec d = list_of sec (data e1) @
         (if state e1 = sec then [truncateString p MAX_LENGTH] else []) @
         map shown_path (entries_of sec (state e1) post)" if "sec \<noteq> Initial" for sec
  proof -
    have "list_of sec d = list_of sec (data e2) @ map shown_path (entries_of sec (state e2) post)"
      unfolding e(2) by (rule run_entries[OF 3 that])
    also have "list_of sec (data e2) = list_of sec (data e1) @
           (if state e1 = sec \<and> entry_line l then [shown_path l] else [])"
      by (rule process_line_list_of[OF 2 that])
    finally show ?thesis using assms(2) s2 by (simp add: shown_path_Some[OF p])
  qed
  with 1 s1 p show ?thesis using that by blast
qed


lemma run_not_Initial:
  "run clk e ls = Inr e' \<Longrightarrow> state e \<noteq> Initial \<Longrightarrow> state e' \<noteq> Initial"
  using run_state[of clk e ls e'] scan_not_Initial[of "state e" ls] by simp

lemma run_distinct:
  "run clk e ls = Inr e' \<Longrightarrow> distinct (map fst (summary (data e))) \<Longrightarrow>
     distinct (map fst (summary (data e')))"
proof (induction ls arbitrary: e)
  case Nil
  then show ?case by simp
next
  case (Cons l ls)
  from Cons.prems(1) obtain e1 where 1: "process_line clk e l = Inr e1" and 2: "run clk e1 ls = Inr e'"
    by (auto split: sum.splits)
  have "distinct (map fst (summary (data e1)))"
    using process_line_Inr(5)[OF 1] Cons.prems(2)
    by (cases "recorded l") (simp_all add: distinct_update)
  with Cons.IH[OF 2] show ?case .
qed

lemma total_line_facts:
  "\<not> py_in ''Start timestamp:'' ''Total number of entries: 42''"
  "first_match summary_patterns ''Total number of entries: 42'' = Some (''total_entries'', ''42'')"
  "\<not> has_header ''Total number of entries: 42''"
  "digits_value ''42'' = 42"
  by code_simp+

lemma recorded_total_42:
  assumes "strip l = ''Total number of entries: 42''"
  shows "recorded l = Some (''total_entries'', ''42'')" "\<not> header_line l"
proof -
  have "\<not> py_in ''Start timestamp:'' l"
    using start_timestamp_strip[of l] total_line_facts(1) assms by simp
  then show "recorded l = Some (''total_entries'', ''42'')"
    by (simp add: recorded_def assms total_line_facts(2))
  show "\<not> header_line l"
    by (simp add: header_line_def assms total_line_facts(3))
qed

lemma recorded_total_iff:
  "(\<exists>g. recorded l = Some (''total_entries'', g)) \<longleftrightarrow>
     \<not> py_in ''Start timestamp:'' l \<and> matches_label ''Total number of entries'' l"
  by (auto simp: recorded_iff matches_label_def)

lemma recorded_added_iff:
  "(\<exists>g. recorded l = Some (''added_summary'', g)) \<longleftrightarrow>
     \<not> py_in ''Start timestamp:'' l \<and> \<not> matches_label ''Total number of entries'' l \<and>
     matches_label ''Added entries'' l"
  by (auto simp: recorded_iff matches_label_def)

lemma recorded_removed_iff:
  "(\<exists>g. recorded l = Some (''removed_summary'', g)) \<longleftrightarrow>
     \<not> py_in ''Start timestamp:'' l \<and> \<not> matches_label ''Total number of entries'' l \<and>
     \<not> matches_label ''Added entries'' l \<and> matches_label ''Removed entries'' l"
  by (auto simp: recorded_iff matches_label_def)

lemma recorded_changed_iff:
  "(\<exists>g. recorded l = Some (''changed_summary'', g)) \<longleftrightarrow>
     \<not> py_in ''Start timestamp:'' l \<and> \<not> matches_label ''Total number of entries'' l \<and>
     \<not> matches_label ''Added entries'' l \<and> \<not> matches_label ''Removed entries'' l \<and>
     matches_label ''Changed entries'' l"
  by (auto simp: recorded_iff matches_label_def)

lemma recorded_keys:
  "recorded l = Some (k, g) \<Longrightarrow>
     k \<in> {''total_entries'', ''added_summary'', ''removed_summary'', ''changed_summary''}"
  by (auto simp: recorded_iff)

section \<open>When aideJson raises, and what json.dumps writes\<close>

text \<open>
  A summary line whose count has more than 4300 digits: \<open>int\<close> raises
  \<open>ValueError\<close>, and \<open>aideJson\<close> with it.
\<close>

lemma py_in_set: "py_in p s \<Longrightarrow> set p \<subseteq> set s"
  unfolding py_in_iff by auto

lemma digit_not_space: "is_digit c \<Longrightarrow> \<not> is_space c"
  by (auto simp: is_digit_def is_space_def)

lemma run_first_error:
  "\<forall>y\<in>set pre. line_error y = None \<Longrightarrow> line_error l = Some x \<Longrightarrow>
     run clk e (pre @ l # post) = Inl x"
proof (induction pre arbitrary: e)
  case Nil
  then have "process_line clk e l = Inl x" by (simp add: process_line_Inl_iff)
  then show ?case by simp
next
  case (Cons y pre)
  from Cons.prems(1) have "line_error y = None" by simp
  then obtain e1 where "process_line clk e y = Inr e1" using process_line_total by blast
  with Cons show ?case by simp
qed

lemma summary_at_hit:
  assumes "ws \<noteq> []" "\<forall>c\<in>set ws. is_space c" "g \<noteq> []" "\<forall>c\<in>set g. is_digit c"
    "rest = [] \<or> \<not> is_digit (hd rest)"
  shows "summary_at label (label @ '':'' @ ws @ g @ rest) = Some g"
proof -
  from assms(3) obtain c cs where g: "g = c # cs" by (cases g) auto
  with assms(4) have c: "is_digit c" by simp
  then have nsp: "\<not> is_space c" by (rule digit_not_space)
  have 1: "startswith (label @ '':'' @ ws @ g @ rest) (label @ '':'')"
    by (simp add: startswith_def)
  have 2: "drop (length label + 1) (label @ '':'' @ ws @ g @ rest) = ws @ g @ rest"
    by simp
  have 3: "takeWhile is_space (ws @ g @ rest) = ws"
    using assms(2) nsp by (simp add: takeWhile_append2 g)
  have 4: "dropWhile is_space (ws @ g @ rest) = g @ rest"
    using assms(2) nsp by (simp add: dropWhile_append2 g)
  have 5: "takeWhile is_digit (g @ rest) = g"
    using assms(4,5) by (cases rest) (simp_all add: takeWhile_append2)
  show ?thesis
    unfolding summary_at_def Let_def 2 3 4 5 using 1 assms(1,3) by simp
qed

lemma re_search_summary_hit:
  "summary_at label s = Some g \<Longrightarrow> re_search_summary label s = Some g"
  by (cases s) simp_all

lemma overlong_total_line:
  assumes "int_max_str_digits < length ds" "\<forall>c\<in>set ds. is_digit c"
  shows "line_error (''Total number of entries: '' @ ds @ nl) = Some ValueError"
proof -
  let ?L = "''Total number of entries: '' @ ds @ nl"
  from assms(1) have ne: "ds \<noteq> []" by auto
  have last_dig: "is_digit (last ds)" using assms(2) ne by simp
  have "\<not> is_digit (CHR ''S'')" by (simp add: is_digit_def)
  then have "CHR ''S'' \<notin> set ds" using assms(2) by blast
  then have "CHR ''S'' \<notin> set ?L" by (simp add: nl_def)
  then have ns: "\<not> py_in ''Start timestamp:'' ?L"
    using py_in_set[of "''Start timestamp:''" ?L] by auto
  have "dropWhile is_space (rev ds @ rev ''Total number of entries: '') =
        rev ds @ rev ''Total number of entries: ''"
    using ne digit_not_space[OF last_dig] by (simp add: dropWhile_eq_self_iff hd_append hd_rev)
  then have st: "strip ?L = ''Total number of entries'' @ '':'' @ '' '' @ ds @ []"
    by (simp add: strip_def nl_def is_space_def)
  have "summary_at ''Total number of entries''
          (''Total number of entries'' @ '':'' @ '' '' @ ds @ []) = Some ds"
    by (rule summary_at_hit) (simp_all add: ne assms(2) is_space_def)
  then have rs: "re_search_summary ''Total number of entries'' (strip ?L) = Some ds"
    unfolding st by (rule re_search_summary_hit)
  have "recorded ?L = first_match summary_patterns (strip ?L)"
    using ns by (simp only: recorded_def if_False)
  also have "\<dots> = Some (''total_entries'', ds)"
    unfolding summary_patterns_def by (simp only: first_match.simps rs option.case)
  finally have "recorded ?L = Some (''total_entries'', ds)" .
  then show ?thesis using assms(1) by (simp only: line_error_def option.case snd_conv if_True)
qed

lemma overlong_total_raises:
  assumes "int_max_str_digits < length ds" "\<forall>c\<in>set ds. is_digit c"
  shows "aideJson clk (Content (report [''Total number of entries: '' @ ds @ nl])) = Inl ValueError"
proof -
  have a: "line_error start_line = None" "line_error banner_line = None"
    "startswith start_line ''Start timestamp:''" "startswith end_line ''End timestamp:''"
    "py_in differences_banner banner_line"
    by code_simp+
  have v: "structurally_valid (report [''Total number of entries: '' @ ds @ nl])"
    using a(3,4,5) by (simp add: structurally_valid_def report_def)
  have "run clk initial_state ([start_line, banner_line] @
      (''Total number of entries: '' @ ds @ nl) # [end_line]) = Inl ValueError"
  proof (rule run_first_error)
    show "\<forall>y\<in>set [start_line, banner_line]. line_error y = None" using a(1,2) by simp
    show "line_error (''Total number of entries: '' @ ds @ nl) = Some ValueError"
      by (rule overlong_total_line[OF assms])
  qed
  then show ?thesis using v unfolding aideJson_Inl_iff by (simp add: report_def)
qed

lemma aideJson_returns_iff:
  "(\<exists>d. aideJson clk (Content lines) = Inr (Some d)) \<longleftrightarrow>
     structurally_valid lines \<and> (\<forall>l\<in>set lines. line_error l = None)"
  using run_Inr_iff[of clk initial_state lines] by (auto simp: aideJson_Some_iff)

text \<open>
  The text \<open>json.dumps\<close> writes for a record with two summary fields: the two absent
  fields have no member.
\<close>

lemma json_dumps_example:
  "json_dumps (items (record_with [''/etc/passwd''] [] [''/a b'', ''q'' @ [CHR 0x22, CHR 0x5C, CHR 0x09]]
      [(''total_entries'', 42), (''changed_summary'', 2)])) =
     ''{'' @ [CHR 0x22] @ ''timestamp'' @ [CHR 0x22] @ '':'' @ [CHR 0x22] @
     ''2024-01-01 00:00:00.000'' @ [CHR 0x22] @ '','' @ [CHR 0x22] @ ''error_severity'' @
     [CHR 0x22] @ '':'' @ [CHR 0x22] @ ''LOG'' @ [CHR 0x22] @ '','' @ [CHR 0x22] @
     ''application_name'' @ [CHR 0x22] @ '':'' @ [CHR 0x22] @ ''AIDE'' @ [CHR 0x22] @
     '','' @ [CHR 0x22] @ ''backend_type'' @ [CHR 0x22] @ '':'' @ [CHR 0x22] @
     ''log_analyzer'' @ [CHR 0x22] @ '','' @ [CHR 0x22] @ ''added_entries'' @ [CHR 0x22] @
     '':['' @ [CHR 0x22] @ ''/etc/passwd'' @ [CHR 0x22] @ ''],'' @ [CHR 0x22] @
     ''removed_entries'' @ [CHR 0x22] @ '':[],'' @ [CHR 0x22] @ ''changed_entries'' @
     [CHR 0x22] @ '':['' @ [CHR 0x22] @ ''/a b'' @ [CHR 0x22] @ '','' @ [CHR 0x22] @
     ''q'' @ [CHR 0x5C] @ [CHR 0x22] @ [CHR 0x5C] @ [CHR 0x5C] @ [CHR 0x5C] @ ''t'' @
     [CHR 0x22] @ ''],'' @ [CHR 0x22] @ ''message'' @ [CHR 0x22] @ '':'' @ [CHR 0x22] @
     ''AIDE Log Analysis'' @ [CHR 0x22] @ '','' @ [CHR 0x22] @ ''total_entries'' @
     [CHR 0x22] @ '':42,'' @ [CHR 0x22] @ ''changed_summary'' @ [CHR 0x22] @ '':2}''"
  by code_simp

section \<open>Properties of aideJson\<close>

text \<open>
  C1: a report that passes the four structural checks always yields a record, whatever
  its other lines hold. The code does not do that. The entry pattern ends in
  \<open>:\s*\/\<close> and so accepts a colon that is followed directly by the slash, while the
  path is taken with \<open>split(": ", 1)[1]\<close>, which needs a colon followed by a blank: on
  the line \<open>f+:/etc/passwd\<close> the split has one element and the index raises
  \<open>IndexError\<close>, which nothing catches.
\<close>

theorem aideJson_raises_IndexError:
  "structurally_valid (report [''f+:/etc/passwd'' @ nl]) \<and>
   aideJson fixed_clock (Content (report [''f+:/etc/passwd'' @ nl])) = Inl IndexError"
  by code_simp

text \<open>
  C2 as stated fails: the summary line \<open>Added entries: 1\<close> matches a summary pattern,
  its stripped text is not the header \<open>Added entries:\<close>, and yet the loop goes on to
  the containment tests and enters the section \<open>Added\<close>. In the report below no
  other line contains a header text, and the entry after the summary line lands in
  \<open>added_entries\<close>.
\<close>

theorem summary_line_sets_section_counterexample:
  "matches_label ''Added entries'' (''Added entries: 1'' @ nl) \<and>
   strip (''Added entries: 1'' @ nl) \<noteq> ''Added entries:'' \<and>
   \<not> header_line start_line \<and> \<not> header_line banner_line \<and>
   \<not> header_line (''f+++: /etc/x'' @ nl) \<and> \<not> header_line end_line \<and>
   aideJson fixed_clock (Content (report [''Added entries: 1'' @ nl, ''f+++: /etc/x'' @ nl])) =
     Inr (Some (record_with [''/etc/x''] [] [] [(''added_summary'', 1)]))"
  by code_simp

text \<open>
  C2, as the code has it, for a line the loop body processes without an exception.
  A line without \<open>Start timestamp:\<close> that matches one of the four summary patterns
  is recorded, and what is recorded (\<open>recorded\<close>: the first matching label in the
  order of \<open>summary_patterns\<close>) is stored under its field. The section state after the
  line is the section named by the first of \<open>Added entries:\<close>, \<open>Removed entries:\<close>,
  \<open>Changed entries:\<close> that the stripped line contains, and it is the state before
  when the line contains none of them; so the state changes only on lines that contain
  one of the three texts, summary lines included.
\<close>

theorem process_line_summary_and_section:
  assumes "process_line clk e line = Inr e'"
  shows "(\<not> py_in ''Start timestamp:'' line \<and> (\<exists>p\<in>set summary_patterns. matches_label (fst p) line)
            \<longrightarrow> recorded line \<noteq> None) \<and>
         (\<forall>key g. recorded line = Some (key, g) \<longrightarrow>
            map_of (summary (data e')) key = Some (digits_value g)) \<and>
         state e' = (if header_line line then section_of line else state e) \<and>
         (state e' \<noteq> state e \<longrightarrow> header_line line)"
proof -
  have 0: "\<not> py_in ''Start timestamp:'' line \<and> (\<exists>p\<in>set summary_patterns. matches_label (fst p) line)
            \<longrightarrow> recorded line \<noteq> None"
    using recorded_None_iff[of line] by blast
  have 1: "\<forall>key g. recorded line = Some (key, g) \<longrightarrow>
            map_of (summary (data e')) key = Some (digits_value g)"
    using process_line_records[OF assms] by blast
  have 2: "state e' = (if header_line line then section_of line else state e)"
    using process_line_Inr(1)[OF assms] by (simp add: next_state_header)
  from 0 1 2 show ?thesis by presburger
qed

theorem process_line_summary_and_section_witness:
  "process_line fixed_clock initial_state (''Added entries: 1'' @ nl) =
     Inr (initial_state\<lparr>data := initial_data\<lparr>summary := [(''added_summary'', 1)]\<rparr>, state := Added\<rparr>) \<and>
   recorded (''Added entries: 1'' @ nl) = Some (''added_summary'', ''1'') \<and>
   header_line (''Added entries: 1'' @ nl) \<and>
   map_of (summary (data (initial_state\<lparr>data := initial_data\<lparr>summary := [(''added_summary'', 1)]\<rparr>,
      state := Added\<rparr>))) ''added_summary'' = Some (digits_value ''1'') \<and>
   state (initial_state\<lparr>data := initial_data\<lparr>summary := [(''added_summary'', 1)]\<rparr>, state := Added\<rparr>)
     = section_of (''Added entries: 1'' @ nl)"
proof -
  let ?L = "''Added entries: 1'' @ nl"
  let ?E = "initial_state\<lparr>data := initial_data\<lparr>summary := [(''added_summary'', 1)]\<rparr>, state := Added\<rparr>"
  have h: "process_line fixed_clock initial_state ?L = Inr ?E"
    by code_simp
  have r: "recorded ?L = Some (''added_summary'', ''1'')"
    by code_simp
  have l: "header_line ?L"
    by code_simp
  note t = process_line_summary_and_section [OF h]
  have a: "map_of (summary (data ?E)) ''added_summary'' = Some (digits_value ''1'')"
    using t [THEN conjunct2, THEN conjunct1] r by blast
  have "state ?E = (if header_line ?L then section_of ?L else state initial_state)"
    by (rule t [THEN conjunct2, THEN conjunct2, THEN conjunct1])
  with l have b: "state ?E = section_of ?L"
    by (simp only: if_True)
  show ?thesis
    by (rule conjI [OF h conjI [OF r conjI [OF l conjI [OF a b]]]])
qed

text \<open>
  C3: when the list of lines is empty, or its first line does not start with
  \<open>Start timestamp:\<close>, or its last line does not start with \<open>End timestamp:\<close>, or it
  has fewer than two lines, or its second line contains neither banner, \<open>aideJson\<close>
  returns \<open>None\<close>: no record, and no exception either.
\<close>

theorem aideJson_structural_gate:
  "lines = [] \<or> \<not> startswith (hd lines) ''Start timestamp:'' \<or>
   \<not> startswith (last lines) ''End timestamp:'' \<or> length lines < 2 \<or>
   (\<not> py_in differences_banner (lines ! 1) \<and> \<not> py_in version_banner (lines ! 1))
   \<Longrightarrow> aideJson clk (Content lines) = Inr None"
  by (auto simp: aideJson_def)

theorem aideJson_structural_gate_witness:
  "\<not> startswith (hd [banner_line, end_line]) ''Start timestamp:'' \<and>
   aideJson fixed_clock (Content [banner_line, end_line]) = Inr None"
proof -
  have h: "\<not> startswith (hd [banner_line, end_line]) ''Start timestamp:''" by code_simp
  then show ?thesis using aideJson_structural_gate [of "[banner_line, end_line]" fixed_clock]
    by blast
qed

text \<open>
  Before the first header the section state is \<open>Initial\<close>, which selects no
  sequence: the entry line of a report without any section header matches the entry
  pattern, its path is extracted, and the path is dropped.
\<close>

lemma entry_before_any_section_ignored:
  "entry_line passwd_entry \<and> entry_path passwd_entry = Some ''/etc/passwd'' \<and>
   aideJson fixed_clock (Content (report [passwd_entry])) = Inr (Some (record_with [] [] [] []))"
  by code_simp

text \<open>
  C5: the path of an entry line is appended to exactly one of the three sequences,
  the one that the section state most recently set before the line selects, and the
  choice does not depend on the path. Let \<open>l\<close> be an entry line of a report for which
  \<open>aideJson\<close> returns the record \<open>d\<close>, and \<open>e1\<close> the state of the loop when \<open>l\<close>
  is read. The section state of \<open>e1\<close> is what the lines before \<open>l\<close> that contain a
  header text have set (\<open>scan\<close> looks at nothing else, and not at \<open>l\<close>). When a
  section state has been set, the sequence it selects is, in \<open>d\<close>, the sequence as it
  stood in \<open>e1\<close>, followed by the truncated path of \<open>l\<close>, followed by what the later
  lines add; each of the two other sequences is the sequence as it stood in \<open>e1\<close>
  followed by what the later lines add, so \<open>l\<close> contributes to no second sequence.
  (While no section state has been set, the state is \<open>Initial\<close> and \<open>l\<close> contributes
  to none.)
\<close>

theorem entry_appended_by_section_state:
  assumes "aideJson clk (Content (pre @ [l] @ post)) = Inr (Some d)" "entry_line l"
  shows "\<exists>e1 p. run clk initial_state pre = Inr e1 \<and> state e1 = scan Initial pre \<and>
           entry_path l = Some p \<and>
           (state e1 \<noteq> Initial \<longrightarrow>
              list_of (state e1) d = list_of (state e1) (data e1) @
                [truncateString p MAX_LENGTH] @
                map shown_path (entries_of (state e1) (state e1) post)) \<and>
           (\<forall>sec. sec \<noteq> Initial \<and> sec \<noteq> state e1 \<longrightarrow>
              list_of sec d = list_of sec (data e1) @
                map shown_path (entries_of sec (state e1) post)) \<and>
           (\<forall>sec. sec \<noteq> Initial \<longrightarrow>
              list_of sec d = list_of sec (data e1) @
                (if state e1 = sec then [truncateString p MAX_LENGTH] else []) @
                map shown_path (entries_of sec (state e1) post))"
proof -
  from aideJson_entry_line[OF assms] obtain e1 p where
    1: "run clk initial_state pre = Inr e1" and 2: "state e1 = scan Initial pre" and
    3: "entry_path l = Some p" and
    4: "\<And>sec. sec \<noteq> Initial \<Longrightarrow>
       list_of sec d = list_of sec (data e1) @
         (if state e1 = sec then [truncateString p MAX_LENGTH] else []) @
         map shown_path (entries_of sec (state e1) post)"
    by blast
  have 5: "state e1 \<noteq> Initial \<longrightarrow>
              list_of (state e1) d = list_of (state e1) (data e1) @
                [truncateString p MAX_LENGTH] @
                map shown_path (entries_of (state e1) (state e1) post)"
    using 4[of "state e1"] by simp
  have 6: "\<forall>sec. sec \<noteq> Initial \<and> sec \<noteq> state e1 \<longrightarrow>
              list_of sec d = list_of sec (data e1) @
                map shown_path (entries_of sec (state e1) post)"
  proof (intro allI impI)
    fix sec assume a: "sec \<noteq> Initial \<and> sec \<noteq> state e1"
    then have "state e1 \<noteq> sec" by auto
    with 4[of sec] a show "list_of sec d = list_of sec (data e1) @
                map shown_path (entries_of sec (state e1) post)" by simp
  qed
  have 7: "\<forall>sec. sec \<noteq> Initial \<longrightarrow>
              list_of sec d = list_of sec (data e1) @
                (if state e1 = sec then [truncateString p MAX_LENGTH] else []) @
                map shown_path (entries_of sec (state e1) post)"
    using 4 by blast
  show ?thesis
    by (rule exI [of _ e1], rule exI [of _ p])
       (rule conjI [OF 1 conjI [OF 2 conjI [OF 3 conjI [OF 5 conjI [OF 6 7]]]]])
qed

theorem entry_appended_by_section_state_witness:
  "aideJson fixed_clock (Content ([start_line, banner_line, added_header] @ [passwd_entry] @ [end_line]))
     = Inr (Some (record_with [''/etc/passwd''] [] [] [])) \<and>
   entry_line passwd_entry \<and>
   scan Initial [start_line, banner_line, added_header] = Added \<and>
   (\<exists>e1 p. run fixed_clock initial_state [start_line, banner_line, added_header] = Inr e1 \<and>
      state e1 = scan Initial [start_line, banner_line, added_header] \<and>
      entry_path passwd_entry = Some p \<and>
      (state e1 \<noteq> Initial \<longrightarrow>
         list_of (state e1) (record_with [''/etc/passwd''] [] [] []) =
           list_of (state e1) (data e1) @ [truncateString p MAX_LENGTH] @
           map shown_path (entries_of (state e1) (state e1) [end_line])) \<and>
      (\<forall>sec. sec \<noteq> Initial \<and> sec \<noteq> state e1 \<longrightarrow>
         list_of sec (record_with [''/etc/passwd''] [] [] []) = list_of sec (data e1) @
           map shown_path (entries_of sec (state e1) [end_line])) \<and>
      (\<forall>sec. sec \<noteq> Initial \<longrightarrow>
         list_of sec (record_with [''/etc/passwd''] [] [] []) = list_of sec (data e1) @
           (if state e1 = sec then [truncateString p MAX_LENGTH] else []) @
           map shown_path (entries_of sec (state e1) [end_line])))"
proof -
  have h: "aideJson fixed_clock
      (Content ([start_line, banner_line, added_header] @ [passwd_entry] @ [end_line]))
     = Inr (Some (record_with [''/etc/passwd''] [] [] []))"
    by code_simp
  have l: "entry_line passwd_entry"
    by code_simp
  have s: "scan Initial [start_line, banner_line, added_header] = Added"
    by code_simp
  show ?thesis
    by (rule conjI [OF h conjI [OF l conjI [OF s entry_appended_by_section_state [OF h l]]]])
qed

text \<open>
  C6: in a record that \<open>aideJson\<close> returns, each of the three sequences is the
  list of the entry lines read in the corresponding section state, taken in the order
  of the input (\<open>entries_of\<close> filters the lines and keeps their order, so it is a
  subsequence of the lines), each mapped to its truncated path.
\<close>

theorem entries_in_input_order:
  assumes "aideJson clk (Content lines) = Inr (Some d)"
  shows "added_entries d = map shown_path (entries_of Added Initial lines) \<and>
         removed_entries d = map shown_path (entries_of Removed Initial lines) \<and>
         changed_entries d = map shown_path (entries_of Changed Initial lines) \<and>
         subseq (entries_of Added Initial lines) lines \<and>
         subseq (entries_of Removed Initial lines) lines \<and>
         subseq (entries_of Changed Initial lines) lines"
proof -
  from assms obtain e where e: "run clk initial_state lines = Inr e" "d = data e"
    unfolding aideJson_Some_iff by blast
  have "list_of sec d = map shown_path (entries_of sec Initial lines)" if "sec \<noteq> Initial" for sec
    using run_entries[OF e(1) that] e(2) by simp
  from this[of Added] this[of Removed] this[of Changed] show ?thesis
    by (simp add: subseq_entries_of)
qed

theorem entries_in_input_order_witness:
  "aideJson fixed_clock (Content (report
      [added_header, ''f+++: /b'' @ nl, ''f+++: /a'' @ nl, ''Removed entries:'' @ nl,
       ''d---: /c'' @ nl]))
     = Inr (Some (record_with [''/b'', ''/a''] [''/c''] [] [])) \<and>
   added_entries (record_with [''/b'', ''/a''] [''/c''] [] []) =
     map shown_path (entries_of Added Initial (report
      [added_header, ''f+++: /b'' @ nl, ''f+++: /a'' @ nl, ''Removed entries:'' @ nl,
       ''d---: /c'' @ nl]))"
proof -
  have h: "aideJson fixed_clock (Content (report
      [added_header, ''f+++: /b'' @ nl, ''f+++: /a'' @ nl, ''Removed entries:'' @ nl,
       ''d---: /c'' @ nl]))
     = Inr (Some (record_with [''/b'', ''/a''] [''/c''] [] []))"
    by code_simp
  show ?thesis
    by (rule conjI [OF h entries_in_input_order [OF h, THEN conjunct1]])
qed

text \<open>
  C7 as stated fails when a later line matches the same pattern: the loop assigns
  \<open>data["total_entries"]\<close> at every match, so the last one stays.
\<close>

theorem total_entries_overwritten_counterexample:
  "strip total_line = ''Total number of entries: 42'' \<and>
   structurally_valid (report [total_line, ''Total number of entries: 7'' @ nl]) \<and>
   aideJson fixed_clock (Content (report [total_line, ''Total number of entries: 7'' @ nl])) =
     Inr (Some (record_with [] [] [] [(''total_entries'', 7)]))"
  by code_simp

text \<open>
  C7, as the code has it: when \<open>aideJson\<close> returns a record for a report with a line
  whose stripped text is \<open>Total number of entries: 42\<close>, and no later line of the
  report (unless it contains \<open>Start timestamp:\<close>) matches the pattern of
  \<open>Total number of entries\<close>, the record has \<open>total_entries = 42\<close>. The section
  state plays no part: the lines before are arbitrary, and in every state of the loop
  the line records 42 and leaves the section state as it is.
\<close>

theorem total_entries_42:
  assumes "aideJson clk (Content (pre @ [l] @ post)) = Inr (Some d)"
    "strip l = ''Total number of entries: 42''"
    "\<forall>x\<in>set post. py_in ''Start timestamp:'' x \<or> \<not> matches_label ''Total number of entries'' x"
  shows "map_of (summary d) ''total_entries'' = Some 42 \<and>
         (\<forall>e e'. process_line clk e l = Inr e' \<longrightarrow>
            map_of (summary (data e')) ''total_entries'' = Some 42 \<and> state e' = state e)"
proof -
  note r = recorded_total_42[OF assms(2)]
  from assms(1) obtain e where e: "run clk initial_state (pre @ [l] @ post) = Inr e" "d = data e"
    unfolding aideJson_Some_iff by blast
  have "\<forall>x\<in>set post. \<forall>g'. recorded x \<noteq> Some (''total_entries'', g')"
    using assms(3) recorded_total_iff by blast
  from run_last_recorded[OF e(1) r(1) this] have 1: "map_of (summary d) ''total_entries'' = Some 42"
    by (simp add: e(2) total_line_facts(4))
  have 2: "map_of (summary (data e')) ''total_entries'' = Some 42 \<and> state e' = state e"
    if "process_line clk e l = Inr e'" for e e'
    using process_line_records[OF that r(1)] process_line_Inr(1)[OF that] r(2)
    by (simp add: total_line_facts(4) next_state_header)
  from 1 2 show ?thesis by blast
qed

theorem total_entries_42_witness:
  "aideJson fixed_clock (Content ([start_line, banner_line, added_header] @ [total_line] @ [end_line]))
     = Inr (Some (record_with [] [] [] [(''total_entries'', 42)])) \<and>
   strip total_line = ''Total number of entries: 42'' \<and>
   \<not> matches_label ''Total number of entries'' end_line \<and>
   map_of (summary (record_with [] [] [] [(''total_entries'', 42)])) ''total_entries'' = Some 42"
proof -
  have h: "aideJson fixed_clock
      (Content ([start_line, banner_line, added_header] @ [total_line] @ [end_line]))
     = Inr (Some (record_with [] [] [] [(''total_entries'', 42)]))"
    by code_simp
  have s: "strip total_line = ''Total number of entries: 42''"
    by code_simp
  have m: "\<not> matches_label ''Total number of entries'' end_line"
    by code_simp
  then have p: "\<forall>x\<in>set [end_line]. py_in ''Start timestamp:'' x \<or>
      \<not> matches_label ''Total number of entries'' x"
    by simp
  show ?thesis
    by (rule conjI [OF h conjI [OF s conjI [OF m total_entries_42 [OF h s p, THEN conjunct1]]]])
qed

text \<open>
  C8 as stated fails on a line that matches two patterns: the loop leaves at the first
  match, so the line below matches the pattern of \<open>Added entries\<close> and the record has
  no \<open>added_summary\<close>.
\<close>

theorem second_pattern_not_recorded_counterexample:
  "matches_label ''Added entries'' (''Total number of entries: 5 Added entries: 3'' @ nl) \<and>
   aideJson fixed_clock
     (Content (report [''Total number of entries: 5 Added entries: 3'' @ nl])) =
     Inr (Some (record_with [] [] [] [(''total_entries'', 5)]))"
  by code_simp

text \<open>
  C8, as the code has it: in a record that \<open>aideJson\<close> returns, a summary field is
  present exactly when some line of the report without \<open>Start timestamp:\<close> matches
  its pattern and none of the patterns that precede it in \<open>summary_patterns\<close>. The
  record has no other summary key and no key twice. The serialised object has one
  member for each item of the dictionary: the eight keys of the literal, then the
  summary keys that are present, each with an integer; an absent field has no member,
  and none is written as \<open>null\<close>.
\<close>

theorem summary_fields_present_iff:
  assumes "aideJson clk (Content lines) = Inr (Some d)"
  shows "(''total_entries'' \<in> fst ` set (summary d) \<longleftrightarrow>
            (\<exists>l\<in>set lines. \<not> py_in ''Start timestamp:'' l \<and>
               matches_label ''Total number of entries'' l)) \<and>
         (''added_summary'' \<in> fst ` set (summary d) \<longleftrightarrow>
            (\<exists>l\<in>set lines. \<not> py_in ''Start timestamp:'' l \<and>
               \<not> matches_label ''Total number of entries'' l \<and> matches_label ''Added entries'' l)) \<and>
         (''removed_summary'' \<in> fst ` set (summary d) \<longleftrightarrow>
            (\<exists>l\<in>set lines. \<not> py_in ''Start timestamp:'' l \<and>
               \<not> matches_label ''Total number of entries'' l \<and> \<not> matches_label ''Added entries'' l \<and>
               matches_label ''Removed entries'' l)) \<and>
         (''changed_summary'' \<in> fst ` set (summary d) \<longleftrightarrow>
            (\<exists>l\<in>set lines. \<not> py_in ''Start timestamp:'' l \<and>
               \<not> matches_label ''Total number of entries'' l \<and> \<not> matches_label ''Added entries'' l \<and>
               \<not> matches_label ''Removed entries'' l \<and> matches_label ''Changed entries'' l)) \<and>
         fst ` set (summary d) \<subseteq>
           {''total_entries'', ''added_summary'', ''removed_summary'', ''changed_summary''} \<and>
         distinct (map fst (summary d)) \<and>
         map fst (items d) =
           [''timestamp'', ''error_severity'', ''application_name'', ''backend_type'',
            ''added_entries'', ''removed_entries'', ''changed_entries'', ''message'']
           @ map fst (summary d) \<and>
         (\<forall>kv\<in>set (items d).
            fst kv \<in> {''total_entries'', ''added_summary'', ''removed_summary'', ''changed_summary''}
            \<longrightarrow> (\<exists>n. snd kv = JInt n)) \<and>
         json_dumps (items d) = ''{'' @ join '','' (map json_member (items d)) @ ''}''"
proof -
  from assms obtain e where e: "run clk initial_state lines = Inr e" "d = data e"
    unfolding aideJson_Some_iff by blast
  have keys: "fst ` set (summary d) = {k. \<exists>l\<in>set lines. \<exists>g. recorded l = Some (k, g)}"
    using run_summary_keys[OF e(1)] by (simp add: e(2) initial_data_def)
  have k: "k \<in> fst ` set (summary d) \<longleftrightarrow> (\<exists>l\<in>set lines. \<exists>g. recorded l = Some (k, g))" for k
    unfolding keys by simp
  have 1: "''total_entries'' \<in> fst ` set (summary d) \<longleftrightarrow>
            (\<exists>l\<in>set lines. \<not> py_in ''Start timestamp:'' l \<and>
               matches_label ''Total number of entries'' l)"
    unfolding k recorded_total_iff ..
  have 2: "''added_summary'' \<in> fst ` set (summary d) \<longleftrightarrow>
            (\<exists>l\<in>set lines. \<not> py_in ''Start timestamp:'' l \<and>
               \<not> matches_label ''Total number of entries'' l \<and> matches_label ''Added entries'' l)"
    unfolding k recorded_added_iff ..
  have 3: "''removed_summary'' \<in> fst ` set (summary d) \<longleftrightarrow>
            (\<exists>l\<in>set lines. \<not> py_in ''Start timestamp:'' l \<and>
               \<not> matches_label ''Total number of entries'' l \<and> \<not> matches_label ''Added entries'' l \<and>
               matches_label ''Removed entries'' l)"
    unfolding k recorded_removed_iff ..
  have 4: "''changed_summary'' \<in> fst ` set (summary d) \<longleftrightarrow>
            (\<exists>l\<in>set lines. \<not> py_in ''Start timestamp:'' l \<and>
               \<not> matches_label ''Total number of entries'' l \<and> \<not> matches_label ''Added entries'' l \<and>
               \<not> matches_label ''Removed entries'' l \<and> matches_label ''Changed entries'' l)"
    unfolding k recorded_changed_iff ..
  have 5: "fst ` set (summary d) \<subseteq>
           {''total_entries'', ''added_summary'', ''removed_summary'', ''changed_summary''}"
  proof
    fix k assume "k \<in> fst ` set (summary d)"
    then obtain l g where "recorded l = Some (k, g)" unfolding keys by auto
    then show "k \<in> {''total_entries'', ''added_summary'', ''removed_summary'', ''changed_summary''}"
      by (rule recorded_keys)
  qed
  have 6: "distinct (map fst (summary d))"
    using run_distinct[OF e(1)] by (simp add: e(2) initial_data_def)
  have 7: "map fst (items d) =
           [''timestamp'', ''error_severity'', ''application_name'', ''backend_type'',
            ''added_entries'', ''removed_entries'', ''changed_entries'', ''message'']
           @ map fst (summary d)"
    by (simp add: items_def o_def)
  have 8: "\<forall>kv\<in>set (items d).
            fst kv \<in> {''total_entries'', ''added_summary'', ''removed_summary'', ''changed_summary''}
            \<longrightarrow> (\<exists>n. snd kv = JInt n)"
    by (auto simp: items_def)
  have 9: "json_dumps (items d) = ''{'' @ join '','' (map json_member (items d)) @ ''}''"
    by (simp add: json_dumps_def)
  show ?thesis
    by (rule conjI [OF 1 conjI [OF 2 conjI [OF 3 conjI [OF 4 conjI [OF 5 conjI [OF 6
          conjI [OF 7 conjI [OF 8 9]]]]]]]])
qed

theorem summary_fields_present_iff_witness:
  "aideJson fixed_clock (Content (report [total_line]))
     = Inr (Some (record_with [] [] [] [(''total_entries'', 42)])) \<and>
   (''total_entries'' \<in> fst ` set (summary (record_with [] [] [] [(''total_entries'', 42)])) \<longleftrightarrow>
      (\<exists>l\<in>set (report [total_line]). \<not> py_in ''Start timestamp:'' l \<and>
         matches_label ''Total number of entries'' l))"
proof -
  have h: "aideJson fixed_clock (Content (report [total_line]))
     = Inr (Some (record_with [] [] [] [(''total_entries'', 42)]))"
    by code_simp
  show ?thesis
    by (rule conjI [OF h summary_fields_present_iff [OF h, THEN conjunct1]])
qed

text \<open>
  C9: let an entry line \<open>l\<close> come after a line \<open>h\<close> recognised as a section header,
  in a report for which \<open>aideJson\<close> returns the record \<open>d\<close>. When \<open>l\<close> is read the
  section state is not \<open>Initial\<close>: it is the section named by the last line before
  \<open>l\<close> that was recognised as a header, whatever lines lie in between, and the
  truncated path of \<open>l\<close> is appended to the sequence of that section. From a state
  other than \<open>Initial\<close> no run of the loop leads back to \<open>Initial\<close>.
\<close>

theorem section_state_never_returns_to_initial:
  assumes "aideJson clk (Content (pre @ [h] @ mid @ [l] @ post)) = Inr (Some d)"
    "header_line h" "entry_line l"
  shows "(\<forall>e ls e'. state e \<noteq> Initial \<longrightarrow> run clk e ls = Inr e' \<longrightarrow> state e' \<noteq> Initial) \<and>
         (\<exists>e1 a h' b p.
           run clk initial_state (pre @ [h] @ mid) = Inr e1 \<and> state e1 \<noteq> Initial \<and>
           pre @ [h] @ mid = a @ [h'] @ b \<and> header_line h' \<and> (\<forall>x\<in>set b. \<not> header_line x) \<and>
           state e1 = section_of h' \<and> entry_path l = Some p \<and>
           list_of (state e1) d = list_of (state e1) (data e1) @ [truncateString p MAX_LENGTH] @
             map shown_path (entries_of (state e1) (state e1) post))"
proof -
  have "aideJson clk (Content ((pre @ [h] @ mid) @ [l] @ post)) = Inr (Some d)"
    using assms(1) by simp
  from aideJson_entry_line[OF this assms(3)] obtain e1 p where
    1: "run clk initial_state (pre @ [h] @ mid) = Inr e1" and
    2: "state e1 = scan Initial (pre @ [h] @ mid)" and
    3: "entry_path l = Some p" and
    4: "\<And>sec. sec \<noteq> Initial \<Longrightarrow>
       list_of sec d = list_of sec (data e1) @
         (if state e1 = sec then [truncateString p MAX_LENGTH] else []) @
         map shown_path (entries_of sec (state e1) post)"
    by blast
  have "\<exists>x\<in>set (pre @ [h] @ mid). header_line x" using assms(2) by simp
  then obtain a h' b where 5: "pre @ [h] @ mid = a @ h' # b" "header_line h'"
    "\<forall>x\<in>set b. \<not> header_line x"
    by (rule split_list_last_propE)
  have 6: "state e1 = section_of h'"
    unfolding 2 5(1) using scan_last_header[OF 5(2,3), of Initial a] by simp
  then have 7: "state e1 \<noteq> Initial" using section_of_not_Initial[OF 5(2)] by simp
  from 4[OF 7] have 8: "list_of (state e1) d = list_of (state e1) (data e1) @
      [truncateString p MAX_LENGTH] @ map shown_path (entries_of (state e1) (state e1) post)"
    by simp
  from 5(1) have 9: "pre @ [h] @ mid = a @ [h'] @ b" by simp
  have 10: "\<forall>e ls e'. state e \<noteq> Initial \<longrightarrow> run clk e ls = Inr e' \<longrightarrow> state e' \<noteq> Initial"
    using run_not_Initial by blast
  from 1 7 9 5(2) 5(3) 6 3 8 have "\<exists>e1 a h' b p.
           run clk initial_state (pre @ [h] @ mid) = Inr e1 \<and> state e1 \<noteq> Initial \<and>
           pre @ [h] @ mid = a @ [h'] @ b \<and> header_line h' \<and> (\<forall>x\<in>set b. \<not> header_line x) \<and>
           state e1 = section_of h' \<and> entry_path l = Some p \<and>
           list_of (state e1) d = list_of (state e1) (data e1) @ [truncateString p MAX_LENGTH] @
             map shown_path (entries_of (state e1) (state e1) post)"
    by blast
  with 10 show ?thesis by (rule conjI)
qed

theorem section_state_never_returns_to_initial_witness:
  "aideJson fixed_clock
      (Content ([start_line, banner_line] @ [added_header] @ [total_line] @ [passwd_entry] @ [end_line]))
     = Inr (Some (record_with [''/etc/passwd''] [] [] [(''total_entries'', 42)])) \<and>
   header_line added_header \<and> entry_line passwd_entry \<and>
   (\<exists>e1. run fixed_clock initial_state ([start_line, banner_line] @ [added_header] @ [total_line])
           = Inr e1 \<and> state e1 \<noteq> Initial)"
proof -
  have h: "aideJson fixed_clock
      (Content ([start_line, banner_line] @ [added_header] @ [total_line] @ [passwd_entry] @ [end_line]))
     = Inr (Some (record_with [''/etc/passwd''] [] [] [(''total_entries'', 42)]))"
    by code_simp
  have a: "header_line added_header"
    by code_simp
  have l: "entry_line passwd_entry"
    by code_simp
  from section_state_never_returns_to_initial [OF h a l, THEN conjunct2]
  have "\<exists>e1. run fixed_clock initial_state ([start_line, banner_line] @ [added_header] @ [total_line])
           = Inr e1 \<and> state e1 \<noteq> Initial"
    by (elim exE conjE) (rule exI, erule conjI, assumption)
  with h a l show ?thesis by (intro conjI)
qed

text \<open>
  C10 as stated fails on a line that matches two patterns: the second line below
  matches the pattern of \<open>Added entries\<close> with the value 3 and is the last line to do
  so, but the loop leaves at its match of \<open>Total number of entries\<close>, and the record
  keeps the 1 of the line before.
\<close>

theorem last_matching_line_not_recorded_counterexample:
  "re_search_summary ''Added entries'' (strip (''Added entries: 1'' @ nl)) = Some ''1'' \<and>
   re_search_summary ''Added entries''
     (strip (''Total number of entries: 5 Added entries: 3'' @ nl)) = Some ''3'' \<and>
   aideJson fixed_clock (Content (report
     [''Added entries: 1'' @ nl, ''Total number of entries: 5 Added entries: 3'' @ nl])) =
     Inr (Some (record_with [] [] [] [(''added_summary'', 1), (''total_entries'', 5)]))"
  by code_simp

text \<open>
  C10, as the code has it: each line on which a label is recorded (the line does not
  contain \<open>Start timestamp:\<close> and the label is the first of \<open>summary_patterns\<close>
  whose pattern matches) overwrites what the field held, in every state of the loop;
  so when \<open>aideJson\<close> returns a record, a field holds the integer of the last line
  on which its label was recorded.
\<close>

theorem last_recorded_summary_wins:
  assumes "aideJson clk (Content (pre @ [l] @ post)) = Inr (Some d)"
    "recorded l = Some (key, g)"
    "\<forall>x\<in>set post. \<forall>g'. recorded x \<noteq> Some (key, g')"
  shows "map_of (summary d) key = Some (digits_value g) \<and>
         (\<forall>e e'. process_line clk e l = Inr e' \<longrightarrow>
            map_of (summary (data e')) key = Some (digits_value g))"
proof -
  from assms(1) obtain e where e: "run clk initial_state (pre @ [l] @ post) = Inr e" "d = data e"
    unfolding aideJson_Some_iff by blast
  from run_last_recorded[OF e(1) assms(2,3)] process_line_records[OF _ assms(2)]
  show ?thesis by (simp add: e(2))
qed

theorem last_recorded_summary_wins_witness:
  "aideJson fixed_clock
      (Content ([start_line, banner_line, ''Added entries: 1'' @ nl] @ [''Added entries: 3'' @ nl]
         @ [end_line]))
     = Inr (Some (record_with [] [] [] [(''added_summary'', 3)])) \<and>
   recorded (''Added entries: 3'' @ nl) = Some (''added_summary'', ''3'') \<and>
   recorded end_line = None \<and>
   map_of (summary (record_with [] [] [] [(''added_summary'', 3)])) ''added_summary''
     = Some (digits_value ''3'')"
proof -
  have h: "aideJson fixed_clock
      (Content ([start_line, banner_line, ''Added entries: 1'' @ nl] @ [''Added entries: 3'' @ nl]
         @ [end_line]))
     = Inr (Some (record_with [] [] [] [(''added_summary'', 3)]))"
    by code_simp
  have r: "recorded (''Added entries: 3'' @ nl) = Some (''added_summary'', ''3'')"
    by code_simp
  have n: "recorded end_line = None"
    by code_simp
  then have p: "\<forall>x\<in>set [end_line]. \<forall>g'. recorded x \<noteq> Some (''added_summary'', g')"
    by simp
  show ?thesis
    by (rule conjI [OF h conjI [OF r conjI [OF n
          last_recorded_summary_wins [OF h r p, THEN conjunct1]]]])
qed

end
